theory Spec2Isabelle
  imports Main "HOL-Library.Sublist"
begin

section \<open>Python strings\<close>

text \<open>
  A Python \<open>str\<close> is modelled as a \<open>string\<close>, one \<open>char\<close> per code point (code points
  below 256). The two string primitives the translator relies on are the substring test
  \<open>old in s\<close> and \<open>s.replace(old, new)\<close>.
\<close>

text \<open>\<open>old in s\<close>: \<open>old\<close> occurs in \<open>s\<close> as a contiguous substring; the empty string
  occurs in every string.\<close>

fun str_in :: "string \<Rightarrow> string \<Rightarrow> bool" where
  "str_in old [] = (old = [])"
| "str_in old (c # cs) = (prefix old (c # cs) \<or> str_in old cs)"

text \<open>\<open>s.replace(old, new)\<close> for a non-empty \<open>old\<close>: scan from the left, replace each
  occurrence found and continue after it (occurrences do not overlap).\<close>

function replace_scan :: "string \<Rightarrow> string \<Rightarrow> string \<Rightarrow> string" where
  "replace_scan old new [] = []"
| "replace_scan old new (c # cs) =
     (if old \<noteq> [] \<and> prefix old (c # cs)
      then new @ replace_scan old new (drop (length old) (c # cs))
      else c # replace_scan old new cs)"
  by pat_completeness auto
termination
  by (relation "measure (\<lambda>(old, new, s). length s)") auto

text \<open>\<open>s.replace(old, new)\<close>. With an empty \<open>old\<close> Python inserts \<open>new\<close> before every
  character and at the end: \<open>"ab".replace("", "-") == "-a-b-"\<close>.\<close>

definition str_replace :: "string \<Rightarrow> string \<Rightarrow> string \<Rightarrow> string" where
  "str_replace s old new =
     (if old = [] then new @ concat (map (\<lambda>c. c # new) s) else replace_scan old new s)"

section \<open>Mapping and paragraphs\<close>

text \<open>
  The mapping is a Python \<open>dict\<close> from source to target; \<open>mapping.items()\<close> yields the
  entries in insertion order, so it is an association list. A run owns a text and its
  formatting; a paragraph is the sequence of its runs, and \<open>paragraph.text\<close> is the
  concatenation of the run texts.
\<close>

type_synonym mapping = "(string \<times> string) list"

record run =
  run_text :: string
  run_style :: nat

type_synonym para = "run list"

definition paragraph_text :: "para \<Rightarrow> string" where
  "paragraph_text p = concat (map run_text p)"

subsection \<open>\<open>replace_in_paragraph\<close> of \<open>translate.py\<close>\<close>

text \<open>
  \<^verbatim>\<open>if src in run.text: run.text = run.text.replace(src, dst)\<close>
\<close>

definition replace_in_run :: "string \<Rightarrow> string \<Rightarrow> run \<Rightarrow> run" where
  "replace_in_run src dst r =
     (if str_in src (run_text r) then r\<lparr>run_text := str_replace (run_text r) src dst\<rparr> else r)"

text \<open>One iteration of \<open>for src, dst in mapping.items()\<close>: the runs are only scanned when
  the paragraph text contains \<open>src\<close>.\<close>

definition run_local_step :: "para \<Rightarrow> string \<times> string \<Rightarrow> para" where
  "run_local_step p e =
     (case e of (src, dst) \<Rightarrow>
        if str_in src (paragraph_text p) then map (replace_in_run src dst) p else p)"

definition replace_in_paragraph_base :: "mapping \<Rightarrow> para \<Rightarrow> para" where
  "replace_in_paragraph_base m p = foldl run_local_step p m"

subsection \<open>\<open>replace_in_paragraph\<close> of \<open>pdf_translator_structured.py\<close>\<close>

text \<open>The inner loop of the rebuild: every entry's \<open>replace\<close> on the whole text, in
  mapping order.\<close>

definition apply_mapping :: "mapping \<Rightarrow> string \<Rightarrow> string" where
  "apply_mapping m t = foldl (\<lambda>t e. case e of (src, dst) \<Rightarrow> str_replace t src dst) t m"

text \<open>
  \<^verbatim>\<open>if paragraph.runs:
      paragraph.runs[0].text = new_text
      for run in paragraph.runs[1:]: run.text = ""\<close>
\<close>

fun set_first_run :: "string \<Rightarrow> para \<Rightarrow> para" where
  "set_first_run t [] = []"
| "set_first_run t (r # rs) = r\<lparr>run_text := t\<rparr> # map (\<lambda>r. r\<lparr>run_text := []\<rparr>) rs"

text \<open>One iteration of the second loop over the mapping.\<close>

definition rebuild_step :: "mapping \<Rightarrow> para \<Rightarrow> string \<times> string \<Rightarrow> para" where
  "rebuild_step m p e =
     (case e of (src, dst) \<Rightarrow>
        if str_in src (paragraph_text p)
        then set_first_run (apply_mapping m (paragraph_text p)) p
        else p)"

definition replace_in_paragraph :: "mapping \<Rightarrow> para \<Rightarrow> para" where
  "replace_in_paragraph m p = foldl (rebuild_step m) (replace_in_paragraph_base m p) m"

subsection \<open>The final pass of \<open>translate_document_preserve_formatting\<close>\<close>

text \<open>
  \<^verbatim>\<open>for src, dst in mapping.items():
      if src in original_text:
          original_text = original_text.replace(src, dst)
          modified = True\<close>
  The state of the loop is the text and the flag.
\<close>

definition scan_entry :: "string \<times> bool \<Rightarrow> string \<times> string \<Rightarrow> string \<times> bool" where
  "scan_entry st e =
     (case st of (t, modified) \<Rightarrow> case e of (src, dst) \<Rightarrow>
        if str_in src t then (str_replace t src dst, True) else (t, modified))"

text \<open>The body of the final loop over \<open>doc.paragraphs\<close>: every run is blanked, then the
  first run receives the text; \<open>add_run\<close> creates a run when there is none.\<close>

definition final_pass_paragraph :: "mapping \<Rightarrow> para \<Rightarrow> para" where
  "final_pass_paragraph m p =
     (if paragraph_text p = [] then p
      else case foldl scan_entry (paragraph_text p, False) m of (t, modified) \<Rightarrow>
        if modified
        then (case map (\<lambda>r. r\<lparr>run_text := []\<rparr>) p of
                [] \<Rightarrow> [\<lparr>run_text = t, run_style = 0\<rparr>]
              | r # rs \<Rightarrow> r\<lparr>run_text := t\<rparr> # rs)
        else p)"

section \<open>The document tree\<close>

text \<open>
  The tree is the one \<open>python-docx\<close> exposes: \<open>table.rows\<close>, \<open>row.cells\<close>,
  \<open>cell.paragraphs\<close>; a header or footer with paragraphs and tables; a section with a
  header and a footer. The attributes \<open>shapes\<close> and \<open>text_frame\<close> are only visited when
  \<open>hasattr\<close> finds them, so they are optional. The nodes of the raw markup tree carry an
  optional \<open>text\<close> and an optional \<open>tail\<close>; they are kept as a sequence of their own.
\<close>

type_synonym cell = "para list"
type_synonym row = "cell list"
type_synonym table = "row list"
type_synonym shape = "para list option"

record header_footer =
  hf_paragraphs :: "para list"
  hf_tables :: "table list"
  hf_shapes :: "shape list option"

record doc_section =
  header :: header_footer
  footer :: header_footer

record node =
  node_text :: "string option"
  node_tail :: "string option"

record document =
  paragraphs :: "para list"
  tables :: "table list"
  shapes :: "shape list option"
  sections :: "doc_section list"
  nodes :: "node list"

subsection \<open>The walk of \<open>translate.py\<close>\<close>

definition replace_in_table_base :: "mapping \<Rightarrow> table \<Rightarrow> table" where
  "replace_in_table_base m t = map (map (map (replace_in_paragraph_base m))) t"

definition replace_in_header_footer_base :: "mapping \<Rightarrow> header_footer \<Rightarrow> header_footer" where
  "replace_in_header_footer_base m hf =
     hf\<lparr>hf_paragraphs := map (replace_in_paragraph_base m) (hf_paragraphs hf),
        hf_tables := map (replace_in_table_base m) (hf_tables hf)\<rparr>"

text \<open>The three loops of \<open>translate_document\<close> before the document is saved.\<close>

definition translate_tree_base :: "mapping \<Rightarrow> document \<Rightarrow> document" where
  "translate_tree_base m doc =
     doc\<lparr>paragraphs := map (replace_in_paragraph_base m) (paragraphs doc),
         tables := map (replace_in_table_base m) (tables doc),
         sections := map (\<lambda>s. s\<lparr>header := replace_in_header_footer_base m (header s),
                                 footer := replace_in_header_footer_base m (footer s)\<rparr>)
                       (sections doc)\<rparr>"

subsection \<open>The walk of \<open>pdf_translator_structured.py\<close>\<close>

definition replace_in_table :: "mapping \<Rightarrow> table \<Rightarrow> table" where
  "replace_in_table m t = map (map (map (replace_in_paragraph m))) t"

text \<open>\<open>if hasattr(shape, 'text_frame'): for paragraph in shape.text_frame.paragraphs\<close>\<close>

definition replace_in_shapes :: "mapping \<Rightarrow> shape list option \<Rightarrow> shape list option" where
  "replace_in_shapes m ss = map_option (map (map_option (map (replace_in_paragraph m)))) ss"

definition replace_in_header_footer :: "mapping \<Rightarrow> header_footer \<Rightarrow> header_footer" where
  "replace_in_header_footer m hf =
     hf\<lparr>hf_paragraphs := map (replace_in_paragraph m) (hf_paragraphs hf),
        hf_tables := map (replace_in_table m) (hf_tables hf),
        hf_shapes := replace_in_shapes m (hf_shapes hf)\<rparr>"

text \<open>The raw markup pass on one field (\<open>element.text\<close> or \<open>element.tail\<close>): skipped when
  the field is absent or empty, written back when some entry matched.\<close>

definition replace_in_field :: "mapping \<Rightarrow> string option \<Rightarrow> string option" where
  "replace_in_field m f =
     (case f of
        None \<Rightarrow> None
      | Some t \<Rightarrow>
          if t = [] then Some t
          else case foldl scan_entry (t, False) m of (t', modified) \<Rightarrow>
            if modified then Some t' else Some t)"

definition replace_in_node :: "mapping \<Rightarrow> node \<Rightarrow> node" where
  "replace_in_node m n =
     n\<lparr>node_text := replace_in_field m (node_text n), node_tail := replace_in_field m (node_tail n)\<rparr>"

text \<open>Everything \<open>translate_document_preserve_formatting\<close> does to the loaded document:
  paragraphs, tables, shapes, sections, the raw markup pass, and the final pass over the
  paragraphs.\<close>

definition translate_tree :: "mapping \<Rightarrow> document \<Rightarrow> document" where
  "translate_tree m doc =
     (let d1 = doc\<lparr>paragraphs := map (replace_in_paragraph m) (paragraphs doc)\<rparr>;
          d2 = d1\<lparr>tables := map (replace_in_table m) (tables d1)\<rparr>;
          d3 = d2\<lparr>shapes := replace_in_shapes m (shapes d2)\<rparr>;
          d4 = d3\<lparr>sections := map (\<lambda>s. s\<lparr>header := replace_in_header_footer m (header s),
                                          footer := replace_in_header_footer m (footer s)\<rparr>)
                                (sections d3)\<rparr>;
          d5 = d4\<lparr>nodes := map (replace_in_node m) (nodes d4)\<rparr>
      in d5\<lparr>paragraphs := map (final_pass_paragraph m) (paragraphs d5)\<rparr>)"

section \<open>The mapping loader\<close>

datatype error =
  FileNotFoundError | FileExistsError | NotADirectoryError | IsADirectoryError
  | PackageNotFoundError | UnicodeDecodeError | ValueError

text \<open>\<open>mapping[src] = dst\<close>: a key already present keeps its position and takes the new
  value, a new key goes to the end.\<close>

fun dict_set :: "('k \<times> 'v) list \<Rightarrow> 'k \<Rightarrow> 'v \<Rightarrow> ('k \<times> 'v) list" where
  "dict_set [] k v = [(k, v)]"
| "dict_set ((k', v') # m) k v = (if k' = k then (k', v) # m else (k', v') # dict_set m k v)"

text \<open>The characters \<open>str.strip()\<close> removes, among the code points below 256.\<close>

definition is_space :: "char \<Rightarrow> bool" where
  "is_space c = (of_char c \<in> {9, 10, 11, 12, 13, 28, 29, 30, 31, 32, 133, 160 :: nat})"

definition strip :: "string \<Rightarrow> string" where
  "strip s = rev (dropWhile is_space (rev (dropWhile is_space s)))"

text \<open>\<open>for line in f\<close> on a file opened in text mode: a line ends at \<open>\n\<close>, \<open>\r\<close> or
  \<open>\r\n\<close>, and each of them is handed over as \<open>\n\<close> at the end of the line. The first
  argument is the line read so far.\<close>

fun file_lines :: "string \<Rightarrow> string \<Rightarrow> string list" where
  "file_lines acc [] = (if acc = [] then [] else [acc])"
| "file_lines acc [c] =
     (if c = CHR 0x0A \<or> c = CHR 0x0D then [acc @ [CHR 0x0A]] else [acc @ [c]])"
| "file_lines acc (c # d # cs) =
     (if c = CHR 0x0A then (acc @ [CHR 0x0A]) # file_lines [] (d # cs)
      else if c = CHR 0x0D
           then (acc @ [CHR 0x0A]) # (if d = CHR 0x0A then file_lines [] cs else file_lines [] (d # cs))
      else file_lines (acc @ [c]) (d # cs))"

text \<open>\<open>line.split(sep, 1)\<close> for a separator of one character: one piece when the separator
  does not occur, else the text before its first occurrence and the text after it.\<close>

fun split1 :: "char \<Rightarrow> string \<Rightarrow> string \<Rightarrow> string list" where
  "split1 sep acc [] = [acc]"
| "split1 sep acc (c # cs) = (if c = sep then [acc, cs] else split1 sep (acc @ [c]) cs)"

text \<open>The loop of \<open>load_mapping\<close>. The unpacking \<open>src, dst = ...\<close> raises \<open>ValueError\<close>
  unless the split gives two pieces.\<close>

fun load_lines :: "mapping \<Rightarrow> string list \<Rightarrow> error + mapping" where
  "load_lines mapping [] = Inr mapping"
| "load_lines mapping (l # ls) =
     (if strip l = [] \<or> \<not> str_in ''='' (strip l) then load_lines mapping ls
      else case split1 CHR ''='' [] (strip l) of
             [src, dst] \<Rightarrow> load_lines (dict_set mapping src dst) ls
           | _ \<Rightarrow> Inl ValueError)"

text \<open>\<open>load_mapping\<close> on the decoded text of the mapping file.\<close>

definition load_mapping :: "string \<Rightarrow> error + mapping" where
  "load_mapping content = load_lines [] (file_lines [] content)"

text \<open>The contract of the loader in the words of the specification: a line that is empty
  after stripping or has no \<open>=\<close> gives nothing; any other line is cut at its first \<open>=\<close>,
  and a later entry for the same source overwrites the earlier one.\<close>

definition spec_entry :: "string \<Rightarrow> (string \<times> string) option" where
  "spec_entry l =
     (if strip l = [] \<or> CHR ''='' \<notin> set (strip l) then None
      else Some (takeWhile (\<lambda>c. c \<noteq> CHR ''='') (strip l),
                 tl (dropWhile (\<lambda>c. c \<noteq> CHR ''='') (strip l))))"

definition load_mapping_spec :: "string \<Rightarrow> (string \<rightharpoonup> string)" where
  "load_mapping_spec content =
     foldl (\<lambda>m l. case spec_entry l of None \<Rightarrow> m | Some (s, t) \<Rightarrow> m(s \<mapsto> t))
       Map.empty (file_lines [] content)"

text \<open>What one line of the file does to the mapping, in terms of the contract.\<close>

definition load_line :: "mapping \<Rightarrow> string \<Rightarrow> mapping" where
  "load_line m l = (case spec_entry l of None \<Rightarrow> m | Some (s, t) \<Rightarrow> dict_set m s t)"

section \<open>Paths and the file system\<close>

text \<open>
  A \<open>pathlib.Path\<close> is the list of its components, the working directory being the empty
  list: \<open>Path('invoice')\<close> is \<open>[''invoice'']\<close>, and \<open>output_dir / name\<close> appends the
  component \<open>name\<close>. \<open>name\<close>, \<open>suffix\<close> and \<open>stem\<close> are those of \<open>pathlib\<close>: the suffix
  starts at the last dot of the name, unless that dot is the first or the last character.
\<close>

type_synonym path = "string list"

definition path_name :: "path \<Rightarrow> string" where
  "path_name p = (if p = [] then [] else last p)"

text \<open>\<open>name.rfind('.')\<close>, \<open>None\<close> standing for \<open>-1\<close>.\<close>

definition rfind_dot :: "string \<Rightarrow> nat option" where
  "rfind_dot name =
     (case filter (\<lambda>i. name ! i = CHR ''.'') (rev [0..<length name]) of
        [] \<Rightarrow> None
      | i # _ \<Rightarrow> Some i)"

definition path_suffix :: "path \<Rightarrow> string" where
  "path_suffix p =
     (case rfind_dot (path_name p) of
        None \<Rightarrow> []
      | Some i \<Rightarrow> if 0 < i \<and> i + 1 < length (path_name p) then drop i (path_name p) else [])"

definition path_stem :: "path \<Rightarrow> string" where
  "path_stem p =
     (case rfind_dot (path_name p) of
        None \<Rightarrow> path_name p
      | Some i \<Rightarrow> if 0 < i \<and> i + 1 < length (path_name p) then take i (path_name p)
                  else path_name p)"

text \<open>
  What a file holds: text, a word-processor document, or the bytes of a PDF. The file
  system is the list of its directories and the association list of its files; the
  working directory always exists.
\<close>

datatype content = Text string | Docx document | Pdf string

record filesystem =
  dirs :: "path list"
  files :: "(path \<times> content) list"

definition is_dir :: "filesystem \<Rightarrow> path \<Rightarrow> bool" where
  "is_dir fs p = (p = [] \<or> p \<in> set (dirs fs))"

definition is_file :: "filesystem \<Rightarrow> path \<Rightarrow> bool" where
  "is_file fs p = (map_of (files fs) p \<noteq> None)"

definition path_exists :: "filesystem \<Rightarrow> path \<Rightarrow> bool" where
  "path_exists fs p = (is_dir fs p \<or> is_file fs p)"

text \<open>\<open>mkdir(parents=True, exist_ok=True)\<close>: every missing directory on the way is
  created; a file standing in the way is an error. The list holds the directories to
  create, outermost first.\<close>

fun mkdir_chain :: "filesystem \<Rightarrow> path list \<Rightarrow> filesystem \<times> error option" where
  "mkdir_chain fs [] = (fs, None)"
| "mkdir_chain fs (q # qs) =
     (if is_file fs q then (fs, Some (if qs = [] then FileExistsError else NotADirectoryError))
      else mkdir_chain (if is_dir fs q then fs else fs\<lparr>dirs := dirs fs @ [q]\<rparr>) qs)"

definition mkdir :: "filesystem \<Rightarrow> path \<Rightarrow> filesystem \<times> error option" where
  "mkdir fs p = mkdir_chain fs (tl (prefixes p))"

text \<open>\<open>Document(doc_path)\<close>: the file must hold a document.\<close>

definition Document :: "filesystem \<Rightarrow> path \<Rightarrow> error + document" where
  "Document fs p =
     (case map_of (files fs) p of Some (Docx d) \<Rightarrow> Inr d | _ \<Rightarrow> Inl PackageNotFoundError)"

text \<open>\<open>doc.save(output_path)\<close>: the path must not be a directory and its parent must be
  one; the file at that path, and no other, is written.\<close>

definition save :: "filesystem \<Rightarrow> document \<Rightarrow> path \<Rightarrow> filesystem \<times> error option" where
  "save fs doc p =
     (if is_dir fs p then (fs, Some IsADirectoryError)
      else if \<not> is_dir fs (butlast p) then (fs, Some FileNotFoundError)
      else (fs\<lparr>files := dict_set (files fs) p (Docx doc)\<rparr>, None))"

text \<open>\<open>path.unlink()\<close> inside \<open>try: ... except: pass\<close>.\<close>

definition unlink :: "filesystem \<Rightarrow> path \<Rightarrow> filesystem" where
  "unlink fs p = fs\<lparr>files := filter (\<lambda>e. fst e \<noteq> p) (files fs)\<rparr>"

text \<open>\<open>input_dir.glob('*' + ext)\<close>: the entries of the directory whose name ends in
  \<open>ext\<close>, in the order of the listing.\<close>

definition glob :: "filesystem \<Rightarrow> path \<Rightarrow> string \<Rightarrow> path list" where
  "glob fs d ext =
     filter (\<lambda>p. p \<noteq> [] \<and> butlast p = d \<and> suffix ext (last p)) (map fst (files fs) @ dirs fs)"

text \<open>\<open>mapping_file.open('r', encoding='utf-8')\<close> followed by \<open>load_mapping\<close>'s loop.\<close>

definition load_mapping_file :: "filesystem \<Rightarrow> path \<Rightarrow> error + mapping" where
  "load_mapping_file fs p =
     (if is_dir fs p then Inl IsADirectoryError
      else case map_of (files fs) p of
             None \<Rightarrow> Inl FileNotFoundError
           | Some (Text content) \<Rightarrow> load_mapping content
           | Some _ \<Rightarrow> Inl UnicodeDecodeError)"

section \<open>The drivers\<close>

definition output_path_of :: "path \<Rightarrow> path \<Rightarrow> path" where
  "output_path_of doc_path output_dir =
     output_dir @ [path_stem doc_path @ ''_translated'' @ path_suffix doc_path]"

subsection \<open>\<open>translate.py\<close>\<close>

definition translate_document ::
  "filesystem \<Rightarrow> path \<Rightarrow> mapping \<Rightarrow> path \<Rightarrow> filesystem \<times> (error + path)" where
  "translate_document fs doc_path m output_dir =
     (case Document fs doc_path of
        Inl e \<Rightarrow> (fs, Inl e)
      | Inr doc \<Rightarrow>
          (case mkdir fs output_dir of
             (fs1, Some e) \<Rightarrow> (fs1, Inl e)
           | (fs1, None) \<Rightarrow>
               (case save fs1 (translate_tree_base m doc) (output_path_of doc_path output_dir) of
                  (fs2, Some e) \<Rightarrow> (fs2, Inl e)
                | (fs2, None) \<Rightarrow> (fs2, Inr (output_path_of doc_path output_dir)))))"

text \<open>The loop of \<open>main\<close>: no handler, an exception of \<open>translate_document\<close> leaves the
  loop.\<close>

fun main_base_loop ::
  "filesystem \<Rightarrow> mapping \<Rightarrow> path \<Rightarrow> path list \<Rightarrow> filesystem \<times> error option" where
  "main_base_loop fs m output_dir [] = (fs, None)"
| "main_base_loop fs m output_dir (doc_path # rest) =
     (case translate_document fs doc_path m output_dir of
        (fs', Inl e) \<Rightarrow> (fs', Some e)
      | (fs', Inr out) \<Rightarrow> main_base_loop fs' m output_dir rest)"

definition main_base :: "filesystem \<Rightarrow> filesystem \<times> error option" where
  "main_base fs =
     (if \<not> path_exists fs [''invoice''] then (fs, Some FileNotFoundError)
      else case load_mapping_file fs [''words.txt''] of
             Inl e \<Rightarrow> (fs, Some e)
           | Inr m \<Rightarrow> main_base_loop fs m [''translated''] (glob fs [''invoice''] ''.docx''))"

subsection \<open>\<open>pdf_translator_structured.py\<close>\<close>

text \<open>The converter of \<open>pdf2docx\<close> is a parameter: from the bytes of a PDF it gives a
  document or fails. Whatever goes wrong inside \<open>convert_pdf_to_docx_preserve_structure\<close>
  is caught there and reported as \<open>False\<close>.\<close>

definition convert_pdf_to_docx_preserve_structure ::
  "(string \<Rightarrow> document option) \<Rightarrow> filesystem \<Rightarrow> path \<Rightarrow> path \<Rightarrow> filesystem \<times> bool" where
  "convert_pdf_to_docx_preserve_structure pdf2docx fs pdf_path docx_path =
     (case map_of (files fs) pdf_path of
        Some (Pdf bytes) \<Rightarrow>
          (case pdf2docx bytes of
             None \<Rightarrow> (fs, False)
           | Some d \<Rightarrow>
               (case save fs d docx_path of
                  (fs', None) \<Rightarrow> (fs', True)
                | (fs', Some e) \<Rightarrow> (fs', False)))
      | _ \<Rightarrow> (fs, False))"

definition translate_document_preserve_formatting ::
  "filesystem \<Rightarrow> path \<Rightarrow> mapping \<Rightarrow> path \<Rightarrow> filesystem \<times> (error + path)" where
  "translate_document_preserve_formatting fs doc_path m output_dir =
     (case Document fs doc_path of
        Inl e \<Rightarrow> (fs, Inl e)
      | Inr doc \<Rightarrow>
          (case mkdir fs output_dir of
             (fs1, Some e) \<Rightarrow> (fs1, Inl e)
           | (fs1, None) \<Rightarrow>
               (case save fs1 (translate_tree m doc) (output_path_of doc_path output_dir) of
                  (fs2, Some e) \<Rightarrow> (fs2, Inl e)
                | (fs2, None) \<Rightarrow> (fs2, Inr (output_path_of doc_path output_dir)))))"

text \<open>\<open>process_pdf_to_structured_docx\<close> returns \<open>None\<close> when the conversion failed and the
  path of the translated document otherwise.\<close>

definition process_pdf_to_structured_docx ::
  "(string \<Rightarrow> document option) \<Rightarrow> filesystem \<Rightarrow> path \<Rightarrow> path \<Rightarrow> path
   \<Rightarrow> filesystem \<times> (error + path option)" where
  "process_pdf_to_structured_docx pdf2docx fs pdf_path mapping_file output_dir =
     (let temp_docx_path = output_dir @ [path_stem pdf_path @ ''_structured.docx''] in
      case convert_pdf_to_docx_preserve_structure pdf2docx fs pdf_path temp_docx_path of
        (fs1, False) \<Rightarrow> (fs1, Inr None)
      | (fs1, True) \<Rightarrow>
          (case load_mapping_file fs1 mapping_file of
             Inl e \<Rightarrow> (fs1, Inl e)
           | Inr m \<Rightarrow>
               (case translate_document_preserve_formatting fs1 temp_docx_path m output_dir of
                  (fs2, Inl e) \<Rightarrow> (fs2, Inl e)
                | (fs2, Inr translated_path) \<Rightarrow>
                    (unlink fs2 temp_docx_path, Inr (Some translated_path)))))"

text \<open>What \<open>main\<close> prints for a file when it is done with it.\<close>

datatype report =
  Successfully_processed path path | Failed_to_process path | Error_processing path error

fun report_file :: "report \<Rightarrow> path" where
  "report_file (Successfully_processed p out) = p"
| "report_file (Failed_to_process p) = p"
| "report_file (Error_processing p e) = p"

text \<open>The loop of \<open>main\<close>: \<open>try: ... except Exception as e\<close> around each file.\<close>

fun main_loop ::
  "(string \<Rightarrow> document option) \<Rightarrow> filesystem \<Rightarrow> path \<Rightarrow> path \<Rightarrow> path list
   \<Rightarrow> filesystem \<times> report list" where
  "main_loop pdf2docx fs mapping_file output_dir [] = (fs, [])"
| "main_loop pdf2docx fs mapping_file output_dir (pdf_path # rest) =
     (case process_pdf_to_structured_docx pdf2docx fs pdf_path mapping_file output_dir of
        (fs', r) \<Rightarrow>
          (case main_loop pdf2docx fs' mapping_file output_dir rest of
             (fs'', reports) \<Rightarrow>
               (fs'',
                (case r of
                   Inr (Some result) \<Rightarrow> Successfully_processed pdf_path result
                 | Inr None \<Rightarrow> Failed_to_process pdf_path
                 | Inl e \<Rightarrow> Error_processing pdf_path e) # reports)))"

definition main ::
  "(string \<Rightarrow> document option) \<Rightarrow> filesystem \<Rightarrow> filesystem \<times> (error + report list)" where
  "main pdf2docx fs =
     (if \<not> path_exists fs [''invoice''] then (fs, Inl FileNotFoundError)
      else if \<not> path_exists fs [''words.txt''] then (fs, Inl FileNotFoundError)
      else if glob fs [''invoice''] ''.pdf'' = [] then (fs, Inr [])
      else case main_loop pdf2docx fs [''words.txt''] [''translated'']
                  (glob fs [''invoice''] ''.pdf'') of
             (fs', reports) \<Rightarrow> (fs', Inr reports))"

text \<open>A document for the examples.\<close>

definition sample_document :: document where
  "sample_document = \<lparr>paragraphs = [[\<lparr>run_text = ''Invoice'', run_style = 0\<rparr>]], tables = [], shapes = None,
         sections = [], nodes = []\<rparr>"


section \<open>When a target can take part in an occurrence of a source\<close>

text \<open>
  A target \<open>t\<close> reintroduces a source \<open>s\<close> when a text into which \<open>t\<close> has been written
  can hold an occurrence of \<open>s\<close> that touches \<open>t\<close>: \<open>t\<close> contains \<open>s\<close>; or \<open>t\<close> lies inside
  \<open>s\<close>; or the removal of a match (an empty \<open>t\<close>) joins the two halves of \<open>s\<close>; or an end of
  \<open>t\<close> is the other end of \<open>s\<close>.
\<close>

definition reintroduces :: "string \<Rightarrow> string \<Rightarrow> bool" where
  "reintroduces s t =
     (str_in s t \<or> (t \<noteq> [] \<and> str_in t s) \<or> (t = [] \<and> 2 \<le> length s) \<or>
      (\<exists>x\<in>set (prefixes s). x \<noteq> [] \<and> suffix x t) \<or>
      (\<exists>x\<in>set (suffixes s). x \<noteq> [] \<and> prefix x t))"

definition no_reintroduction :: "mapping \<Rightarrow> bool" where
  "no_reintroduction m = (\<forall>e\<in>set m. \<forall>e'\<in>set m. \<not> reintroduces (fst e) (snd e'))"

text \<open>No occurrence of \<open>s\<close> in \<open>u @ x\<close> begins inside \<open>u\<close>.\<close>

definition starts_after :: "string \<Rightarrow> string \<Rightarrow> string \<Rightarrow> bool" where
  "starts_after s u x = (\<forall>ps ss. u @ x = ps @ s @ ss \<longrightarrow> length u \<le> length ps)"

section \<open>Basic facts\<close>

lemma str_in_sublist: "str_in old s = sublist old s"
  by (induction s) (auto simp: sublist_Cons_right)

text \<open>
  C2. The paragraph with the runs \<open>["Inv", "oice #123"]\<close> and the mapping
  \<open>{"Invoice": "Factura"}\<close>: no run contains \<open>Invoice\<close>. After \<open>replace_in_paragraph\<close>
  of \<open>pdf_translator_structured.py\<close> the paragraph text is \<open>"Factura #123"\<close>; after
  \<open>replace_in_paragraph\<close> of \<open>translate.py\<close>, which has no rebuild pass, the runs are as
  they were and the paragraph text is still \<open>"Invoice #123"\<close>.
\<close>

theorem run_straddling_variants:
  "\<not> str_in ''Invoice'' ''Inv'' \<and> \<not> str_in ''Invoice'' ''oice #123'' \<and>
   paragraph_text (replace_in_paragraph [(''Invoice'', ''Factura'')]
     [\<lparr>run_text = ''Inv'', run_style = 0\<rparr>, \<lparr>run_text = ''oice #123'', run_style = 1\<rparr>])
   = ''Factura #123'' \<and>
   replace_in_paragraph_base [(''Invoice'', ''Factura'')]
     [\<lparr>run_text = ''Inv'', run_style = 0\<rparr>, \<lparr>run_text = ''oice #123'', run_style = 1\<rparr>]
   = [\<lparr>run_text = ''Inv'', run_style = 0\<rparr>, \<lparr>run_text = ''oice #123'', run_style = 1\<rparr>] \<and>
   paragraph_text (replace_in_paragraph_base [(''Invoice'', ''Factura'')]
     [\<lparr>run_text = ''Inv'', run_style = 0\<rparr>, \<lparr>run_text = ''oice #123'', run_style = 1\<rparr>])
   = ''Invoice #123''"
  by (simp add: replace_in_paragraph_def replace_in_paragraph_base_def rebuild_step_def
      run_local_step_def replace_in_run_def apply_mapping_def paragraph_text_def str_replace_def)

lemma sublist_insert_target:
  assumes nr: "\<not> reintroduces s t" and occ: "sublist s (u @ t @ v)"
  shows "sublist s u \<or> sublist s v"
proof -
  have ne: "s \<noteq> []" using nr by (auto simp: reintroduces_def str_in_sublist)
  from occ consider "sublist s u" | "sublist s (t @ v)"
    | s1 s2 where "s = s1 @ s2" "suffix s1 u" "prefix s2 (t @ v)" "s1 \<noteq> []" "s2 \<noteq> []"
    unfolding sublist_append[of s u] 
    by (metis append.right_neutral append_Nil prefix_imp_sublist suffix_imp_sublist sublist_append)
  then show ?thesis
  proof cases
    case 1 then show ?thesis by simp
  next
    case 2
    then consider "sublist s t" | "sublist s v"
      | s1 s2 where "s = s1 @ s2" "suffix s1 t" "prefix s2 v"
      unfolding sublist_append[of s t] by blast
    then show ?thesis
    proof cases
      case 1 then show ?thesis using nr by (simp add: reintroduces_def str_in_sublist)
    next
      case 2 then show ?thesis by simp
    next
      case 3
      show ?thesis
      proof (cases "s1 = []")
        case True then show ?thesis using 3 by auto
      next
        case False
        have "s1 \<in> set (prefixes s)" using 3 by (simp add: in_set_prefixes)
        then show ?thesis using nr False 3 unfolding reintroduces_def by blast
      qed
    qed
  next
    case 3
    from 3(3) consider "prefix s2 t" | us where "s2 = t @ us" "prefix us v"
      unfolding prefix_append by blast
    then show ?thesis
    proof cases
      case 1
      have "s2 \<in> set (suffixes s)" using 3 by (simp add: in_set_suffixes suffix_def)
      then show ?thesis using nr 3 1 unfolding reintroduces_def by blast
    next
      case 2
      show ?thesis
      proof (cases "t = []")
        case True
        have "2 \<le> length s" using 3 by (cases s1; cases s2) auto
        then show ?thesis using nr True by (simp add: reintroduces_def)
      next
        case False
        have "sublist t s" using 3 2 by (auto simp: sublist_def)
        then show ?thesis using nr False by (simp add: reintroduces_def str_in_sublist)
      qed
    qed
  qed
qed

lemma replace_scan_no_new:
  "\<not> reintroduces s' t \<Longrightarrow> sublist s' (u @ replace_scan s t x) \<Longrightarrow> sublist s' (u @ x)"
proof (induction s t x arbitrary: u rule: replace_scan.induct)
  case (1 old new)
  then show ?case by simp
next
  case (2 old new c cs)
  define rest where "rest = drop (length old) (c # cs)"
  note nr = "2.prems"(1)
  show ?case
  proof (cases "old \<noteq> [] \<and> prefix old (c # cs)")
    case True
    then have split: "c # cs = old @ rest"
      by (auto simp: prefix_def rest_def)
    have occ: "sublist s' (u @ new @ replace_scan old new rest)"
      using "2.prems"(2) True by (simp add: rest_def)
    from sublist_insert_target[OF nr occ]
    show ?thesis
    proof
      assume "sublist s' u" then show ?thesis
        by (metis sublist_append)
    next
      assume "sublist s' (replace_scan old new rest)"
      then have "sublist s' ([] @ replace_scan old new (drop (length old) (c # cs)))"
        by (simp add: rest_def)
      from "2.IH"(1)[OF True nr this] have "sublist s' rest" by (simp add: rest_def)
      then show ?thesis unfolding split by (metis sublist_append)
    qed
  next
    case False
    then have "replace_scan old new (c # cs) = c # replace_scan old new cs" by auto
    then have "sublist s' ((u @ [c]) @ replace_scan old new cs)" using "2.prems"(2) by simp
    from "2.IH"(2)[OF False nr this] show ?thesis by simp
  qed
qed

lemma replace_scan_source_gone_aux:
  "s \<noteq> [] \<Longrightarrow> \<not> reintroduces s t \<Longrightarrow> starts_after s u x \<Longrightarrow>
   \<not> sublist s (u @ replace_scan s t x)"
proof (induction s t x arbitrary: u rule: replace_scan.induct)
  case (1 old new)
  show ?case
  proof
    assume "sublist old (u @ replace_scan old new [])"
    then obtain ps ss where "u = ps @ old @ ss" by (auto simp: sublist_def)
    then have "length u \<le> length ps" using "1.prems"(3) by (simp add: starts_after_def)
    then show False using \<open>u = ps @ old @ ss\<close> \<open>old \<noteq> []\<close> by simp
  qed
next
  case (2 old new c cs)
  note ne = "2.prems"(1) and nr = "2.prems"(2) and sa = "2.prems"(3)
  have not_in_u: "\<not> sublist old u"
  proof
    assume "sublist old u"
    then obtain ps ss where u: "u = ps @ old @ ss" by (auto simp: sublist_def)
    then have "u @ c # cs = ps @ old @ (ss @ c # cs)" by simp
    then have "length u \<le> length ps" using sa unfolding starts_after_def by blast
    then show False using u ne by simp
  qed
  show ?case
  proof (cases "old \<noteq> [] \<and> prefix old (c # cs)")
    case True
    have "starts_after old [] (drop (length old) (c # cs))" by (simp add: starts_after_def)
    from "2.IH"(1)[OF True ne nr this]
    have "\<not> sublist old (replace_scan old new (drop (length old) (c # cs)))" by simp
    with not_in_u sublist_insert_target[OF nr, of u]
    have "\<not> sublist old (u @ new @ replace_scan old new (drop (length old) (c # cs)))" by blast
    then show ?thesis using True by simp
  next
    case False
    have "starts_after old (u @ [c]) cs"
      unfolding starts_after_def
    proof (intro allI impI)
      fix ps ss assume eq: "(u @ [c]) @ cs = ps @ old @ ss"
      then have "u @ c # cs = ps @ old @ ss" by simp
      then have le: "length u \<le> length ps" using sa unfolding starts_after_def by blast
      have "length ps \<noteq> length u"
      proof
        assume "length ps = length u"
        then have "ps = u" "c # cs = old @ ss" using eq by auto
        then show False using False ne by (auto simp: prefix_def)
      qed
      then show "length (u @ [c]) \<le> length ps" using le by simp
    qed
    moreover have "replace_scan old new (c # cs) = c # replace_scan old new cs"
      using False by auto
    ultimately show ?thesis using "2.IH"(2)[OF False ne nr, of "u @ [c]"] by simp
  qed
qed

lemma replace_scan_source_gone:
  assumes nr: "\<not> reintroduces s t"
  shows "\<not> sublist s (replace_scan s t x)"
proof -
  have ne: "s \<noteq> []" using nr by (auto simp: reintroduces_def str_in_sublist)
  have "starts_after s [] x" by (simp add: starts_after_def)
  from replace_scan_source_gone_aux[OF ne nr this] show ?thesis by simp
qed


lemma str_replace_absent: "\<not> str_in old s \<Longrightarrow> str_replace s old new = s"
proof -
  assume a: "\<not> str_in old s"
  then have ne: "old \<noteq> []" by (auto simp: str_in_sublist)
  have "\<not> sublist old s \<Longrightarrow> replace_scan old new s = s"
  proof (induction s)
    case Nil then show ?case by simp
  next
    case (Cons c cs)
    then have "\<not> prefix old (c # cs)" "\<not> sublist old cs"
      by (auto simp: sublist_Cons_right)
    then show ?case using Cons.IH by simp
  qed
  then show ?thesis using a ne by (simp add: str_replace_def str_in_sublist)
qed

lemma reintroduces_Nil: "reintroduces [] t"
  by (simp add: reintroduces_def str_in_sublist)

lemma no_reintroduction_nonempty:
  "no_reintroduction m \<Longrightarrow> e \<in> set m \<Longrightarrow> fst e \<noteq> []"
  unfolding no_reintroduction_def using reintroduces_Nil by metis

lemma apply_mapping_Nil: "apply_mapping [] x = x"
  by (simp add: apply_mapping_def)

lemma apply_mapping_Cons:
  "apply_mapping ((s, t) # m) x = apply_mapping m (str_replace x s t)"
  by (simp add: apply_mapping_def)

lemma apply_mapping_no_new:
  "\<forall>e\<in>set m. fst e \<noteq> [] \<and> \<not> reintroduces s (snd e) \<Longrightarrow>
   sublist s (apply_mapping m x) \<Longrightarrow> sublist s x"
proof (induction m arbitrary: x)
  case Nil
  then show ?case by (simp add: apply_mapping_def)
next
  case (Cons e m)
  obtain s' t where e: "e = (s', t)" by (cases e)
  from Cons.prems have "sublist s (apply_mapping m (str_replace x s' t))"
    by (simp add: e apply_mapping_Cons)
  with Cons have "sublist s (str_replace x s' t)" by simp
  moreover have "s' \<noteq> []" "\<not> reintroduces s t" using Cons.prems(1) e by auto
  ultimately show ?case
    using replace_scan_no_new[of s t "[]" s' x] by (simp add: str_replace_def)
qed

lemma apply_mapping_sources_gone_aux:
  "no_reintroduction M \<Longrightarrow> set m \<subseteq> set M \<Longrightarrow> e \<in> set m \<Longrightarrow>
   \<not> sublist (fst e) (apply_mapping m x)"
proof (induction m arbitrary: x)
  case Nil
  then show ?case by simp
next
  case (Cons a m)
  obtain s t where a: "a = (s, t)" by (cases a)
  have rest: "\<forall>e'\<in>set m. fst e' \<noteq> [] \<and> \<not> reintroduces (fst e) (snd e')"
  proof
    fix e' assume "e' \<in> set m"
    then have "e' \<in> set M" "e \<in> set M" using Cons.prems by auto
    then show "fst e' \<noteq> [] \<and> \<not> reintroduces (fst e) (snd e')"
      using Cons.prems(1) no_reintroduction_nonempty[of M e']
      by (simp add: no_reintroduction_def)
  qed
  show ?case
  proof (cases "e = a")
    case True
    have "(s, t) \<in> set M" using Cons.prems(2) a by simp
    then have nr: "\<not> reintroduces s t"
      using Cons.prems(1) unfolding no_reintroduction_def by fastforce
    then have "s \<noteq> []" using reintroduces_Nil by auto
    then have "\<not> sublist s (str_replace x s t)"
      using replace_scan_source_gone[OF nr, of x] by (simp add: str_replace_def)
    then show ?thesis
      using apply_mapping_no_new[OF rest, of "str_replace x s t"] True a
      by (auto simp: apply_mapping_Cons)
  next
    case False
    then have "e \<in> set m" using Cons.prems by simp
    then show ?thesis using Cons by (simp add: a apply_mapping_Cons)
  qed
qed

lemma apply_mapping_sources_gone:
  "no_reintroduction m \<Longrightarrow> e \<in> set m \<Longrightarrow> \<not> str_in (fst e) (apply_mapping m x)"
  using apply_mapping_sources_gone_aux[of m m e x] by (simp add: str_in_sublist)

lemma apply_mapping_absent:
  "\<forall>e\<in>set m. \<not> str_in (fst e) x \<Longrightarrow> apply_mapping m x = x"
  by (induction m) (auto simp: apply_mapping_Cons apply_mapping_Nil str_replace_absent)



subsection \<open>Paragraphs\<close>

lemma str_in_run_paragraph:
  "r \<in> set p \<Longrightarrow> str_in src (run_text r) \<Longrightarrow> str_in src (paragraph_text p)"
proof -
  assume "r \<in> set p" and occ: "str_in src (run_text r)"
  then obtain p1 p2 where "p = p1 @ r # p2" by (auto simp: in_set_conv_decomp)
  then have "paragraph_text p = paragraph_text p1 @ run_text r @ paragraph_text p2"
    by (simp add: paragraph_text_def)
  moreover obtain ps ss where "run_text r = ps @ src @ ss"
    using occ by (auto simp: str_in_sublist sublist_def)
  ultimately have "paragraph_text p = (paragraph_text p1 @ ps) @ src @ (ss @ paragraph_text p2)"
    by simp
  then show ?thesis unfolding str_in_sublist sublist_def by blast
qed

lemma replace_in_run_eq:
  "replace_in_run src dst r = r\<lparr>run_text := str_replace (run_text r) src dst\<rparr>"
  by (simp add: replace_in_run_def str_replace_absent)

lemma run_local_step_eq:
  "run_local_step p (src, dst) = map (\<lambda>r. r\<lparr>run_text := str_replace (run_text r) src dst\<rparr>) p"
proof (cases "str_in src (paragraph_text p)")
  case True
  then show ?thesis by (simp add: run_local_step_def replace_in_run_eq)
next
  case False
  then have "\<forall>r\<in>set p. \<not> str_in src (run_text r)" using str_in_run_paragraph by blast
  then have "map (\<lambda>r. r\<lparr>run_text := str_replace (run_text r) src dst\<rparr>) p = map (\<lambda>r. r) p"
    by (intro map_cong) (simp_all add: str_replace_absent)
  then show ?thesis using False by (simp add: run_local_step_def)
qed

lemma replace_in_paragraph_base_eq:
  "replace_in_paragraph_base m p = map (\<lambda>r. r\<lparr>run_text := apply_mapping m (run_text r)\<rparr>) p"
proof (induction m arbitrary: p)
  case Nil
  then show ?case by (simp add: replace_in_paragraph_base_def apply_mapping_Nil)
next
  case (Cons e m)
  obtain s t where e: "e = (s, t)" by (cases e)
  have "replace_in_paragraph_base (e # m) p = replace_in_paragraph_base m (run_local_step p e)"
    by (simp add: replace_in_paragraph_base_def)
  then show ?case
    by (simp add: Cons.IH e run_local_step_eq apply_mapping_Cons comp_def)
qed

lemma paragraph_text_set_first_run:
  "paragraph_text (set_first_run t p) = (if p = [] then [] else t)"
  by (cases p) (simp_all add: paragraph_text_def comp_def)

lemma rebuild_loop_absent:
  "\<forall>e\<in>set m'. \<not> str_in (fst e) (paragraph_text p) \<Longrightarrow> foldl (rebuild_step m) p m' = p"
  by (induction m') (auto simp: rebuild_step_def)

lemma run_local_loop_absent:
  "\<forall>e\<in>set m'. \<not> str_in (fst e) (paragraph_text p) \<Longrightarrow> foldl run_local_step p m' = p"
  by (induction m') (auto simp: run_local_step_def)

lemma rebuild_step_sources_gone:
  assumes nr: "no_reintroduction m" and e: "e \<in> set m"
    and occ: "str_in (fst e) (paragraph_text p)"
  shows "\<forall>e'\<in>set m. \<not> str_in (fst e') (paragraph_text (rebuild_step m p e))"
proof -
  have "fst e \<noteq> []" using no_reintroduction_nonempty[OF nr e] .
  then have "p \<noteq> []" using occ by (auto simp: paragraph_text_def)
  then have "paragraph_text (rebuild_step m p e) = apply_mapping m (paragraph_text p)"
    using occ by (cases e) (simp add: rebuild_step_def paragraph_text_set_first_run)
  then show ?thesis using apply_mapping_sources_gone[OF nr] by simp
qed

lemma rebuild_loop_sources_gone:
  assumes nr: "no_reintroduction m"
  shows "set m' \<subseteq> set m \<Longrightarrow>
    (foldl (rebuild_step m) p m' = p \<and> (\<forall>e\<in>set m'. \<not> str_in (fst e) (paragraph_text p)))
    \<or> (\<forall>e\<in>set m. \<not> str_in (fst e) (paragraph_text (foldl (rebuild_step m) p m')))"
proof (induction m' arbitrary: p)
  case Nil
  then show ?case by simp
next
  case (Cons e m')
  show ?case
  proof (cases "str_in (fst e) (paragraph_text p)")
    case True
    have "e \<in> set m" using Cons.prems by simp
    from rebuild_step_sources_gone[OF nr this True]
    have gone: "\<forall>e'\<in>set m. \<not> str_in (fst e') (paragraph_text (rebuild_step m p e))" .
    then have "\<forall>e'\<in>set m'. \<not> str_in (fst e') (paragraph_text (rebuild_step m p e))"
      using Cons.prems by auto
    from rebuild_loop_absent[OF this] gone show ?thesis by simp
  next
    case False
    then have "rebuild_step m p e = p" by (cases e) (simp add: rebuild_step_def)
    then show ?thesis using Cons.IH[of p] Cons.prems False by auto
  qed
qed

lemma replace_in_paragraph_sources_gone:
  assumes nr: "no_reintroduction m" and e: "e \<in> set m"
  shows "\<not> str_in (fst e) (paragraph_text (replace_in_paragraph m p))"
  using rebuild_loop_sources_gone[OF nr subset_refl, of "replace_in_paragraph_base m p"] e
  by (auto simp: replace_in_paragraph_def)

lemma scan_loop_flag: "foldl scan_entry (t, True) m = (t', b) \<Longrightarrow> b"
proof (induction m arbitrary: t)
  case Nil
  then show ?case by simp
next
  case (Cons a m)
  obtain s d where a: "a = (s, d)" by (cases a)
  have "scan_entry (t, True) a = (if str_in s t then str_replace t s d else t, True)"
    by (simp add: scan_entry_def a)
  then show ?case using Cons by simp
qed

lemma scan_loop:
  "foldl scan_entry (t, b) m = (t', b') \<Longrightarrow>
   t' = apply_mapping m t \<and> (\<not> b' \<longrightarrow> (\<forall>e\<in>set m. \<not> str_in (fst e) t))"
proof (induction m arbitrary: t b)
  case Nil
  then show ?case by (simp add: apply_mapping_Nil)
next
  case (Cons e m)
  obtain s d where e: "e = (s, d)" by (cases e)
  show ?case
  proof (cases "str_in s t")
    case True
    then have "scan_entry (t, b) e = (str_replace t s d, True)"
      by (simp add: scan_entry_def e)
    then have step: "foldl scan_entry (str_replace t s d, True) m = (t', b')"
      using Cons.prems by simp
    then have "b'" by (rule scan_loop_flag)
    then show ?thesis using Cons.IH[OF step] by (simp add: e apply_mapping_Cons)
  next
    case False
    then have "scan_entry (t, b) e = (t, b)"
      by (simp add: scan_entry_def e)
    then have step: "foldl scan_entry (t, b) m = (t', b')"
      using Cons.prems by simp
    show ?thesis using Cons.IH[OF step] False
      by (simp add: e apply_mapping_Cons str_replace_absent)
  qed
qed

lemma paragraph_text_blank: "paragraph_text (map (\<lambda>r. r\<lparr>run_text := []\<rparr>) rs) = []"
  by (induction rs) (simp_all add: paragraph_text_def)

lemma paragraph_text_Cons: "paragraph_text (r # rs) = run_text r @ paragraph_text rs"
  by (simp add: paragraph_text_def)

lemma final_pass_text:
  assumes ne: "paragraph_text p \<noteq> []"
  shows "paragraph_text (final_pass_paragraph m p) = apply_mapping m (paragraph_text p)"
proof -
  obtain t' b' where f: "foldl scan_entry (paragraph_text p, False) m = (t', b')"
    by (cases "foldl scan_entry (paragraph_text p, False) m")
  note sl = scan_loop[OF f]
  show ?thesis
  proof (cases b')
    case True
    obtain r rs where p: "p = r # rs" using ne by (cases p) (auto simp: paragraph_text_def)
    have "final_pass_paragraph m p = r\<lparr>run_text := t'\<rparr> # map (\<lambda>r. r\<lparr>run_text := []\<rparr>) rs"
      using ne f True unfolding final_pass_paragraph_def p by simp
    then show ?thesis using sl by (simp add: paragraph_text_Cons paragraph_text_blank)
  next
    case False
    then have "final_pass_paragraph m p = p"
      using ne f unfolding final_pass_paragraph_def by simp
    then show ?thesis using sl False by (simp add: apply_mapping_absent)
  qed
qed

lemma final_pass_sources_gone:
  assumes nr: "no_reintroduction m" and e: "e \<in> set m"
  shows "\<not> str_in (fst e) (paragraph_text (final_pass_paragraph m p))"
proof (cases "paragraph_text p = []")
  case True
  then show ?thesis using no_reintroduction_nonempty[OF nr e]
    by (simp add: final_pass_paragraph_def)
next
  case False
  then show ?thesis using apply_mapping_sources_gone[OF nr e] by (simp add: final_pass_text)
qed


lemma replace_in_paragraph_fixed:
  assumes "\<forall>e\<in>set m. \<not> str_in (fst e) (paragraph_text p)"
  shows "replace_in_paragraph m p = p" and "replace_in_paragraph_base m p = p"
proof -
  show b: "replace_in_paragraph_base m p = p"
    using run_local_loop_absent[OF assms] by (simp add: replace_in_paragraph_base_def)
  show "replace_in_paragraph m p = p"
    using rebuild_loop_absent[OF assms, of m] b by (simp add: replace_in_paragraph_def)
qed

lemma rebuild_step_exact:
  assumes "p \<noteq> []"
  shows "rebuild_step m p e \<noteq> []"
    and "paragraph_text (rebuild_step m p e)
           = (if str_in (fst e) (paragraph_text p) then apply_mapping m (paragraph_text p)
              else paragraph_text p)"
proof -
  obtain r rs where p: "p = r # rs" using assms by (cases p) auto
  show "rebuild_step m p e \<noteq> []"
    by (cases e) (simp add: rebuild_step_def p)
  show "paragraph_text (rebuild_step m p e)
           = (if str_in (fst e) (paragraph_text p) then apply_mapping m (paragraph_text p)
              else paragraph_text p)"
    using assms by (cases e) (simp add: rebuild_step_def paragraph_text_set_first_run)
qed

lemma rebuild_loop_text:
  "p \<noteq> [] \<Longrightarrow>
   paragraph_text (foldl (rebuild_step m) p m')
     = foldl (\<lambda>t e. if str_in (fst e) t then apply_mapping m t else t) (paragraph_text p) m'"
proof (induction m' arbitrary: p)
  case Nil
  then show ?case by simp
next
  case (Cons e m')
  from rebuild_step_exact[OF Cons.prems, of m e] Cons.IH[of "rebuild_step m p e"]
  show ?case by simp
qed

lemma rebuild_loop_no_runs: "foldl (rebuild_step m) [] m' = []"
  by (induction m') (auto simp: rebuild_step_def)

text \<open>
  C1 (as amended). Let no target of the mapping reintroduce a source of the mapping. Then
  for every paragraph and every entry \<open>(src, dst)\<close> of the mapping, the paragraph text
  contains no occurrence of \<open>src\<close> after \<open>replace_in_paragraph\<close>, and none after the final
  pass run on its result.
\<close>

theorem no_match_left:
  assumes "no_reintroduction m" and "(src, dst) \<in> set m"
  shows "\<not> str_in src (paragraph_text (replace_in_paragraph m p)) \<and>
         \<not> str_in src (paragraph_text (final_pass_paragraph m (replace_in_paragraph m p)))"
  using replace_in_paragraph_sources_gone[OF assms, of p]
    final_pass_sources_gone[OF assms, of "replace_in_paragraph m p"] by simp

text \<open>The mapping \<open>{"Invoice": "Factura"}\<close> meets the hypothesis; on the runs
  \<open>["Inv", "oice #123"]\<close> the source is present before and gone afterwards.\<close>

theorem no_match_left_witness:
  "no_reintroduction [(''Invoice'', ''Factura'')] \<and>
   str_in ''Invoice'' (paragraph_text
     [\<lparr>run_text = ''Inv'', run_style = 0\<rparr>, \<lparr>run_text = ''oice #123'', run_style = 1\<rparr>]) \<and>
   \<not> str_in ''Invoice'' (paragraph_text (final_pass_paragraph [(''Invoice'', ''Factura'')]
     (replace_in_paragraph [(''Invoice'', ''Factura'')]
       [\<lparr>run_text = ''Inv'', run_style = 0\<rparr>, \<lparr>run_text = ''oice #123'', run_style = 1\<rparr>])))"
proof -
  have h: "no_reintroduction [(''Invoice'', ''Factura'')]"
    by (simp add: no_reintroduction_def reintroduces_def suffix_to_prefix)
  have e: "(''Invoice'', ''Factura'') \<in> set [(''Invoice'', ''Factura'')]" by simp
  have "str_in ''Invoice'' (paragraph_text
     [\<lparr>run_text = ''Inv'', run_style = 0\<rparr>, \<lparr>run_text = ''oice #123'', run_style = 1\<rparr>])"
    by (simp add: paragraph_text_def)
  with h no_match_left[OF h e] show ?thesis by blast
qed

text \<open>
  C1 as stated asks only that no target contains a source. The target \<open>b\<close> does not
  contain the source \<open>ab\<close>, yet on the single run \<open>aaaaab\<close> every pass removes one \<open>a\<close>
  and makes the next occurrence: after the run-local pass, the rebuild and the final pass
  the text is \<open>aab\<close>, which still contains \<open>ab\<close>.
\<close>

theorem no_match_left_counterexample:
  "\<not> str_in ''ab'' ''b'' \<and>
   str_in ''ab'' (paragraph_text [\<lparr>run_text = ''aaaaab'', run_style = 0\<rparr>]) \<and>
   paragraph_text (final_pass_paragraph [(''ab'', ''b'')]
     (replace_in_paragraph [(''ab'', ''b'')] [\<lparr>run_text = ''aaaaab'', run_style = 0\<rparr>])) = ''aab'' \<and>
   str_in ''ab'' ''aab''"
  by (simp add: replace_in_paragraph_def replace_in_paragraph_base_def rebuild_step_def
      run_local_step_def replace_in_run_def apply_mapping_def paragraph_text_def str_replace_def
      final_pass_paragraph_def scan_entry_def)

text \<open>
  C3. Let no target of the mapping reintroduce (contain or create) a source of the mapping.
  Then applying \<open>replace_in_paragraph\<close> twice gives the same paragraph text as applying it
  once, for the variant with the rebuild pass and for the variant of \<open>translate.py\<close>.
\<close>

theorem replace_in_paragraph_idempotent:
  assumes nr: "no_reintroduction m"
  shows "paragraph_text (replace_in_paragraph m (replace_in_paragraph m p))
           = paragraph_text (replace_in_paragraph m p) \<and>
         paragraph_text (replace_in_paragraph_base m (replace_in_paragraph_base m p))
           = paragraph_text (replace_in_paragraph_base m p)"
proof
  have "\<forall>e\<in>set m. \<not> str_in (fst e) (paragraph_text (replace_in_paragraph m p))"
    using replace_in_paragraph_sources_gone[OF nr] by blast
  then show "paragraph_text (replace_in_paragraph m (replace_in_paragraph m p))
           = paragraph_text (replace_in_paragraph m p)"
    by (simp add: replace_in_paragraph_fixed(1))
next
  have "apply_mapping m (apply_mapping m t) = apply_mapping m t" for t
    using apply_mapping_absent[of m "apply_mapping m t"] apply_mapping_sources_gone[OF nr]
    by blast
  then have "replace_in_paragraph_base m (replace_in_paragraph_base m p)
           = replace_in_paragraph_base m p"
    by (simp add: replace_in_paragraph_base_eq comp_def)
  then show "paragraph_text (replace_in_paragraph_base m (replace_in_paragraph_base m p))
           = paragraph_text (replace_in_paragraph_base m p)" by simp
qed

text \<open>The mapping \<open>{"Invoice": "Factura"}\<close> on the runs \<open>["Inv", "oice #123"]\<close>: the
  second application leaves \<open>"Factura #123"\<close>.\<close>

theorem replace_in_paragraph_idempotent_witness:
  "no_reintroduction [(''Invoice'', ''Factura'')] \<and>
   paragraph_text (replace_in_paragraph [(''Invoice'', ''Factura'')]
     (replace_in_paragraph [(''Invoice'', ''Factura'')]
       [\<lparr>run_text = ''Inv'', run_style = 0\<rparr>, \<lparr>run_text = ''oice #123'', run_style = 1\<rparr>]))
   = ''Factura #123''"
proof -
  have h: "no_reintroduction [(''Invoice'', ''Factura'')]"
    by (simp add: no_reintroduction_def reintroduces_def suffix_to_prefix)
  have "paragraph_text (replace_in_paragraph [(''Invoice'', ''Factura'')]
       [\<lparr>run_text = ''Inv'', run_style = 0\<rparr>, \<lparr>run_text = ''oice #123'', run_style = 1\<rparr>])
     = ''Factura #123''"
    by (simp add: replace_in_paragraph_def replace_in_paragraph_base_def rebuild_step_def
      run_local_step_def replace_in_run_def apply_mapping_def paragraph_text_def str_replace_def)
  with h replace_in_paragraph_idempotent[OF h] show ?thesis by simp
qed

text \<open>
  C4 (as amended). The entries are applied in insertion order, with no preference for the
  longest match. The run-local pass comes first: it rewrites the text of every run by each
  entry's \<open>replace\<close> in insertion order, and this is all the variant of \<open>translate.py\<close>
  does. The variant with the rebuild pass then goes through the entries in insertion order
  once more, and at each entry whose source occurs in the current paragraph text it
  replaces that text by its in-order \<open>replace\<close> under the whole mapping: the resulting
  text of a paragraph with runs is exactly that fold over the run-wise result. A paragraph
  without runs stays without runs, and when no source occurs in the run-wise result the
  two variants agree.
\<close>

theorem insertion_order:
  "replace_in_paragraph_base m p = map (\<lambda>r. r\<lparr>run_text := apply_mapping m (run_text r)\<rparr>) p \<and>
   (p \<noteq> [] \<longrightarrow>
      paragraph_text (replace_in_paragraph m p)
        = foldl (\<lambda>t e. if str_in (fst e) t then apply_mapping m t else t)
            (paragraph_text (replace_in_paragraph_base m p)) m) \<and>
   (p = [] \<longrightarrow> replace_in_paragraph m p = []) \<and>
   ((\<forall>e\<in>set m. \<not> str_in (fst e) (paragraph_text (replace_in_paragraph_base m p)))
      \<longrightarrow> replace_in_paragraph m p = replace_in_paragraph_base m p)"
proof (intro conjI impI)
  show b: "replace_in_paragraph_base m p
             = map (\<lambda>r. r\<lparr>run_text := apply_mapping m (run_text r)\<rparr>) p"
    by (rule replace_in_paragraph_base_eq)
  show "paragraph_text (replace_in_paragraph m p)
        = foldl (\<lambda>t e. if str_in (fst e) t then apply_mapping m t else t)
            (paragraph_text (replace_in_paragraph_base m p)) m" if "p \<noteq> []"
  proof -
    have "replace_in_paragraph_base m p \<noteq> []" using that b by simp
    from rebuild_loop_text[OF this] show ?thesis by (simp add: replace_in_paragraph_def)
  qed
  show "replace_in_paragraph m p = []" if "p = []"
    using that b by (simp add: replace_in_paragraph_def rebuild_loop_no_runs)
  show "replace_in_paragraph m p = replace_in_paragraph_base m p"
    if "\<forall>e\<in>set m. \<not> str_in (fst e) (paragraph_text (replace_in_paragraph_base m p))"
    using rebuild_loop_absent[OF that] by (simp add: replace_in_paragraph_def)
qed

text \<open>The runs \<open>["Inv", "oice #123"]\<close>: no run is rewritten, the source occurs in the
  text, the rebuild fires and the text is \<open>"Factura #123"\<close>. A single run \<open>category\<close>:
  with \<open>cat\<close> first the result is \<open>dogegory\<close>, with \<open>category\<close> first it is \<open>kind\<close>.\<close>

theorem insertion_order_witness:
  "paragraph_text (replace_in_paragraph [(''Invoice'', ''Factura'')]
     [\<lparr>run_text = ''Inv'', run_style = 0\<rparr>, \<lparr>run_text = ''oice #123'', run_style = 1\<rparr>])
     = ''Factura #123'' \<and>
   replace_in_paragraph [(''cat'', ''dog''), (''category'', ''kind'')]
     [\<lparr>run_text = ''category'', run_style = 0\<rparr>] = [\<lparr>run_text = ''dogegory'', run_style = 0\<rparr>] \<and>
   replace_in_paragraph [(''category'', ''kind''), (''cat'', ''dog'')]
     [\<lparr>run_text = ''category'', run_style = 0\<rparr>] = [\<lparr>run_text = ''kind'', run_style = 0\<rparr>]"
  using insertion_order[of "[(''Invoice'', ''Factura'')]"
      "[\<lparr>run_text = ''Inv'', run_style = 0\<rparr>, \<lparr>run_text = ''oice #123'', run_style = 1\<rparr>]"]
    insertion_order[of "[(''cat'', ''dog''), (''category'', ''kind'')]"
      "[\<lparr>run_text = ''category'', run_style = 0\<rparr>]"]
    insertion_order[of "[(''category'', ''kind''), (''cat'', ''dog'')]"
      "[\<lparr>run_text = ''category'', run_style = 0\<rparr>]"]
  by (simp add: apply_mapping_def str_replace_def paragraph_text_def)

text \<open>
  C4 as stated says that the resulting text is the in-order \<open>replace\<close> of the paragraph
  text. With \<open>category\<close> before \<open>cat\<close> and the runs \<open>["cat", "egory"]\<close> the in-order
  \<open>replace\<close> of the text \<open>category\<close> is \<open>kind\<close>, but the run-local pass rewrites the first
  run first and the result is \<open>dogegory\<close>.
\<close>

theorem insertion_order_counterexample:
  "paragraph_text (replace_in_paragraph [(''category'', ''kind''), (''cat'', ''dog'')]
     [\<lparr>run_text = ''cat'', run_style = 0\<rparr>, \<lparr>run_text = ''egory'', run_style = 1\<rparr>]) = ''dogegory'' \<and>
   apply_mapping [(''category'', ''kind''), (''cat'', ''dog'')]
     (paragraph_text [\<lparr>run_text = ''cat'', run_style = 0\<rparr>, \<lparr>run_text = ''egory'', run_style = 1\<rparr>])
     = ''kind''"
  by (simp add: replace_in_paragraph_def replace_in_paragraph_base_def rebuild_step_def
      run_local_step_def replace_in_run_def apply_mapping_def paragraph_text_def str_replace_def)

text \<open>
  C9 (as amended). \<open>replace_in_paragraph\<close> of \<open>translate.py\<close> keeps the number of runs
  and the formatting of every run and leaves every run whose text contains no source
  unchanged. The entry of a source that no single run contains changes nothing, also when
  that source occurs in the paragraph text across a run boundary. When no single run
  contains any source of the mapping, the paragraph and its text are unchanged.
\<close>

theorem base_frame:
  "length (replace_in_paragraph_base m p) = length p \<and>
   map run_style (replace_in_paragraph_base m p) = map run_style p \<and>
   (\<forall>i<length p. (\<forall>e\<in>set m. \<not> str_in (fst e) (run_text (p ! i)))
        \<longrightarrow> replace_in_paragraph_base m p ! i = p ! i) \<and>
   ((\<forall>r\<in>set p. \<not> str_in src (run_text r)) \<longrightarrow> run_local_step p (src, dst) = p) \<and>
   ((\<forall>r\<in>set p. \<forall>e\<in>set m. \<not> str_in (fst e) (run_text r))
        \<longrightarrow> replace_in_paragraph_base m p = p
            \<and> paragraph_text (replace_in_paragraph_base m p) = paragraph_text p)"
proof -
  have unchanged: "r\<lparr>run_text := apply_mapping m (run_text r)\<rparr> = r"
    if "\<forall>e\<in>set m. \<not> str_in (fst e) (run_text r)" for r :: run
    using apply_mapping_absent[OF that] by simp
  have all: "(\<forall>r\<in>set p. \<forall>e\<in>set m. \<not> str_in (fst e) (run_text r))
        \<Longrightarrow> map (\<lambda>r. r\<lparr>run_text := apply_mapping m (run_text r)\<rparr>) p = p"
    using unchanged by (simp add: map_idI)
  have one: "run_local_step p (src, dst) = p" if "\<forall>r\<in>set p. \<not> str_in src (run_text r)"
  proof -
    have "map (\<lambda>r. r\<lparr>run_text := str_replace (run_text r) src dst\<rparr>) p = p"
      using that by (simp add: map_idI str_replace_absent)
    then show ?thesis by (simp add: run_local_step_eq)
  qed
  show ?thesis using unchanged all one by (simp add: replace_in_paragraph_base_eq comp_def)
qed

text \<open>The source \<open>Invoice\<close> occurs in the text of the runs \<open>["Inv", "oice #123"]\<close> but in
  neither run, and the paragraph is unchanged.\<close>

theorem base_frame_witness:
  "str_in ''Invoice'' (paragraph_text
     [\<lparr>run_text = ''Inv'', run_style = 0\<rparr>, \<lparr>run_text = ''oice #123'', run_style = 1\<rparr>]) \<and>
   \<not> str_in ''Invoice'' ''Inv'' \<and> \<not> str_in ''Invoice'' ''oice #123'' \<and>
   replace_in_paragraph_base [(''Invoice'', ''Factura'')]
     [\<lparr>run_text = ''Inv'', run_style = 0\<rparr>, \<lparr>run_text = ''oice #123'', run_style = 1\<rparr>]
   = [\<lparr>run_text = ''Inv'', run_style = 0\<rparr>, \<lparr>run_text = ''oice #123'', run_style = 1\<rparr>]"
  using base_frame[of "[(''Invoice'', ''Factura'')]"
      "[\<lparr>run_text = ''Inv'', run_style = 0\<rparr>, \<lparr>run_text = ''oice #123'', run_style = 1\<rparr>]"]
  by (simp add: paragraph_text_def)

text \<open>
  C9 as stated puts the condition on one source: it occurs in the paragraph text and in
  no single run. With the mapping \<open>{"Invoice": "Factura", "#": "No."}\<close> and the runs
  \<open>["Inv", "oice #123"]\<close> that holds of \<open>Invoice\<close>, yet the second run contains \<open>#\<close> and
  is rewritten: the paragraph text changes from \<open>"Invoice #123"\<close> to \<open>"Invoice No.123"\<close>.
\<close>

theorem base_frame_counterexample:
  "str_in ''Invoice'' (paragraph_text
     [\<lparr>run_text = ''Inv'', run_style = 0\<rparr>, \<lparr>run_text = ''oice #123'', run_style = 1\<rparr>]) \<and>
   \<not> str_in ''Invoice'' ''Inv'' \<and> \<not> str_in ''Invoice'' ''oice #123'' \<and>
   paragraph_text
     [\<lparr>run_text = ''Inv'', run_style = 0\<rparr>, \<lparr>run_text = ''oice #123'', run_style = 1\<rparr>]
     = ''Invoice #123'' \<and>
   paragraph_text (replace_in_paragraph_base [(''Invoice'', ''Factura''), (''#'', ''No.'')]
     [\<lparr>run_text = ''Inv'', run_style = 0\<rparr>, \<lparr>run_text = ''oice #123'', run_style = 1\<rparr>])
     = ''Invoice No.123''"
  by (simp add: replace_in_paragraph_base_def run_local_step_def replace_in_run_def
      paragraph_text_def str_replace_def)


subsection \<open>The loader\<close>

lemma str_in_single: "str_in [c] s = (c \<in> set s)"
  by (induction s) auto

lemma split1_eq:
  "split1 sep acc s =
     (if sep \<in> set s
      then [acc @ takeWhile (\<lambda>c. c \<noteq> sep) s, tl (dropWhile (\<lambda>c. c \<noteq> sep) s)]
      else [acc @ s])"
  by (induction s arbitrary: acc) auto

lemma load_lines_eq: "load_lines m ls = Inr (foldl load_line m ls)"
  by (induction ls arbitrary: m)
     (auto simp: load_line_def spec_entry_def str_in_single split1_eq)

lemma map_of_dict_set: "map_of (dict_set m k v) = (map_of m)(k \<mapsto> v)"
  by (induction m) auto

lemma keys_dict_set:
  "map fst (dict_set m k v) = (if k \<in> set (map fst m) then map fst m else map fst m @ [k])"
  by (induction m) (fastforce simp: image_iff)+

lemma distinct_dict_set: "distinct (map fst m) \<Longrightarrow> distinct (map fst (dict_set m k v))"
  by (simp add: keys_dict_set)

lemma load_line_spec:
  "map_of (load_line m l) = (case spec_entry l of None \<Rightarrow> map_of m | Some (s, t) \<Rightarrow> (map_of m)(s \<mapsto> t))"
  by (simp add: load_line_def map_of_dict_set split: option.splits)

lemma load_fold_spec:
  "map_of (foldl load_line m ls) =
     foldl (\<lambda>m l. case spec_entry l of None \<Rightarrow> m | Some (s, t) \<Rightarrow> m(s \<mapsto> t)) (map_of m) ls"
  by (induction ls arbitrary: m) (simp_all add: load_line_spec)

lemma load_fold_distinct:
  "distinct (map fst m) \<Longrightarrow> distinct (map fst (foldl load_line m ls))"
  by (induction ls arbitrary: m) (auto simp: load_line_def distinct_dict_set split: option.splits)

text \<open>
  C5. For every text of the mapping file \<open>load_mapping\<close> returns a mapping, never an
  error, and that mapping is the one of the contract: each line that is non-empty after
  stripping and contains \<open>=\<close> is cut at its first \<open>=\<close>, the left part being the source and
  the right part the target, all other lines being skipped; the sources are distinct. On
  \<open>"foo=bar\n\nbaz\nqux=quux\n"\<close> the result is \<open>{"foo": "bar", "qux": "quux"}\<close>.
\<close>

theorem load_mapping_contract:
  "(\<exists>m. load_mapping content = Inr m \<and> map_of m = load_mapping_spec content
         \<and> distinct (map fst m)) \<and>
   load_mapping ''foo=bar\<newline>\<newline>baz\<newline>qux=quux\<newline>''
     = Inr [(''foo'', ''bar''), (''qux'', ''quux'')]"
proof
  show "\<exists>m. load_mapping content = Inr m \<and> map_of m = load_mapping_spec content
         \<and> distinct (map fst m)"
    using load_fold_spec[of "[]"] load_fold_distinct[of "[]"]
    by (simp add: load_mapping_def load_lines_eq load_mapping_spec_def)
  show "load_mapping ''foo=bar\<newline>\<newline>baz\<newline>qux=quux\<newline>''
     = Inr [(''foo'', ''bar''), (''qux'', ''quux'')]"
    by (simp add: load_mapping_def strip_def is_space_def)
qed


lemma keys_dict_set_mono: "k \<in> set (map fst m) \<Longrightarrow> k \<in> set (map fst (dict_set m k' v))"
  by (simp only: keys_dict_set) (simp split: if_splits)

lemma spec_entry_leading_eq: "strip l = CHR ''='' # d \<Longrightarrow> spec_entry l = Some ([], d)"
  by (simp add: spec_entry_def)

lemma load_fold_keys: "k \<in> set (map fst m) \<Longrightarrow> k \<in> set (map fst (foldl load_line m ls))"
proof (induction ls arbitrary: m)
  case Nil
  then show ?case by simp
next
  case (Cons l ls)
  have "k \<in> set (map fst (load_line m l))"
    using Cons.prems keys_dict_set_mono[of k m]
    by (cases "spec_entry l") (auto simp: load_line_def simp del: set_map)
  then show ?case using Cons.IH by simp
qed

text \<open>
  C10. A line that after stripping begins with \<open>=\<close> is never skipped or rejected: the
  loader stores the text after the \<open>=\<close> under the empty source. If it is the last line
  read, the loaded mapping maps the empty string to that text; wherever it stands in the
  file, the loaded mapping has the empty string among its sources.
\<close>

theorem empty_source_entry:
  assumes "strip l = CHR ''='' # d"
  shows "load_lines m (l # ls) = load_lines (dict_set m [] d) ls \<and>
         (\<exists>m'. load_lines m (ls @ [l]) = Inr m' \<and> map_of m' [] = Some d) \<and>
         (l \<in> set (file_lines [] content) \<longrightarrow>
            (\<exists>m'. load_mapping content = Inr m' \<and> [] \<in> fst ` set m'))"
proof (intro conjI impI)
  note se = spec_entry_leading_eq[OF assms]
  show "load_lines m (l # ls) = load_lines (dict_set m [] d) ls"
    using se by (simp add: load_lines_eq load_line_def)
  show "\<exists>m'. load_lines m (ls @ [l]) = Inr m' \<and> map_of m' [] = Some d"
    using se by (simp add: load_lines_eq load_line_def map_of_dict_set)
  assume "l \<in> set (file_lines [] content)"
  then obtain l1 l2 where split: "file_lines [] content = l1 @ l # l2"
    by (auto simp: in_set_conv_decomp)
  have "[] \<in> set (map fst (load_line (foldl load_line [] l1) l))"
    using se by (simp add: load_line_def keys_dict_set)
  from load_fold_keys[OF this, of l2]
  show "\<exists>m'. load_mapping content = Inr m' \<and> [] \<in> fst ` set m'"
    by (simp add: load_mapping_def load_lines_eq split)
qed

text \<open>The line \<open>=bar\<close> gives the entry from the empty string to \<open>bar\<close>.\<close>

theorem empty_source_entry_witness:
  "strip ''=bar\<newline>'' = CHR ''='' # ''bar'' \<and>
   load_lines [] [''=bar\<newline>''] = Inr [([], ''bar'')] \<and>
   load_mapping ''foo=x\<newline>=bar\<newline>'' = Inr [(''foo'', ''x''), ([], ''bar'')]"
proof -
  have h: "strip ''=bar\<newline>'' = CHR ''='' # ''bar''"
    by (simp add: strip_def is_space_def)
  have "load_mapping ''foo=x\<newline>=bar\<newline>'' = Inr [(''foo'', ''x''), ([], ''bar'')]"
    by (simp add: load_mapping_def strip_def is_space_def)
  with h empty_source_entry[OF h, of "[]" "[]"] show ?thesis by simp
qed


subsection \<open>Paths and files\<close>

lemma path_stem_suffix: "path_stem p @ path_suffix p = path_name p"
  by (simp add: path_stem_def path_suffix_def split: option.splits)

lemma output_path_differs: "output_path_of doc_path output_dir \<noteq> doc_path"
proof
  assume eq: "output_path_of doc_path output_dir = doc_path"
  then have "doc_path \<noteq> []" by (auto simp: output_path_of_def)
  then have "path_name doc_path = last doc_path" by (simp add: path_name_def)
  moreover have "last doc_path = path_stem doc_path @ ''_translated'' @ path_suffix doc_path"
    using arg_cong[OF eq, of last] by (simp add: output_path_of_def)
  ultimately have "length (path_stem doc_path @ path_suffix doc_path)
      = length (path_stem doc_path @ ''_translated'' @ path_suffix doc_path)"
    by (simp only: path_stem_suffix)
  then show False by simp
qed

lemma mkdir_chain_files: "files (fst (mkdir_chain fs qs)) = files fs"
  by (induction qs arbitrary: fs) auto

lemma mkdir_chain_dirs:
  "set (dirs fs) \<subseteq> set (dirs (fst (mkdir_chain fs qs))) \<and>
   set (dirs (fst (mkdir_chain fs qs))) \<subseteq> set (dirs fs) \<union> set qs"
proof (induction qs arbitrary: fs)
  case Nil
  then show ?case by simp
next
  case (Cons q qs)
  show ?case using Cons.IH[of fs] Cons.IH[of "fs\<lparr>dirs := dirs fs @ [q]\<rparr>"] by auto
qed

lemma mkdir_chain_success:
  "mkdir_chain fs qs = (fs', None) \<Longrightarrow> q \<in> set qs \<Longrightarrow> is_dir fs' q"
proof (induction qs arbitrary: fs)
  case Nil
  then show ?case by simp
next
  case (Cons a qs)
  let ?fs1 = "if is_dir fs a then fs else fs\<lparr>dirs := dirs fs @ [a]\<rparr>"
  have step: "mkdir_chain ?fs1 qs = (fs', None)"
    using Cons.prems(1) by (simp split: if_splits)
  show ?case
  proof (cases "q = a")
    case True
    have "is_dir ?fs1 a" by (simp add: is_dir_def)
    then have "a = [] \<or> a \<in> set (dirs ?fs1)" by (simp add: is_dir_def)
    then show ?thesis using mkdir_chain_dirs[of ?fs1 qs] step True
      by (auto simp: is_dir_def)
  next
    case False
    then show ?thesis using Cons.IH[OF step] Cons.prems(2) by simp
  qed
qed

lemma mkdir_chain_total:
  "\<forall>q\<in>set qs. \<not> is_file fs q \<Longrightarrow> snd (mkdir_chain fs qs) = None"
proof (induction qs arbitrary: fs)
  case Nil
  then show ?case by simp
next
  case (Cons a qs)
  have "\<forall>q\<in>set qs. \<not> is_file (fs\<lparr>dirs := dirs fs @ [a]\<rparr>) q"
    using Cons.prems by (simp add: is_file_def)
  then show ?case using Cons by simp
qed


lemma mkdir_success:
  assumes "mkdir fs p = (fs', None)"
  shows "files fs' = files fs" and "\<forall>q\<in>set (prefixes p). is_dir fs' q"
    and "set (dirs fs') \<subseteq> set (dirs fs) \<union> set (prefixes p)"
proof -
  have c: "mkdir_chain fs (tl (prefixes p)) = (fs', None)" using assms by (simp add: mkdir_def)
  show "files fs' = files fs" using mkdir_chain_files[of fs "tl (prefixes p)"] c by simp
  show "\<forall>q\<in>set (prefixes p). is_dir fs' q"
  proof
    fix q assume "q \<in> set (prefixes p)"
    then have "q = [] \<or> q \<in> set (tl (prefixes p))" by (cases p) auto
    then show "is_dir fs' q" using mkdir_chain_success[OF c] by (auto simp: is_dir_def)
  qed
  have "set (tl (prefixes p)) \<subseteq> set (prefixes p)" by (cases p) auto
  then show "set (dirs fs') \<subseteq> set (dirs fs) \<union> set (prefixes p)"
    using mkdir_chain_dirs[of fs "tl (prefixes p)"] c by auto
qed

lemma mkdir_files: "files (fst (mkdir fs p)) = files fs"
  by (simp add: mkdir_def mkdir_chain_files)

lemma mkdir_total:
  "\<forall>q\<in>set (prefixes p). \<not> is_file fs q \<Longrightarrow> \<exists>fs'. mkdir fs p = (fs', None)"
proof -
  assume a: "\<forall>q\<in>set (prefixes p). \<not> is_file fs q"
  have "set (tl (prefixes p)) \<subseteq> set (prefixes p)" by (cases p) auto
  then have "snd (mkdir_chain fs (tl (prefixes p))) = None"
    using a by (intro mkdir_chain_total) auto
  then show ?thesis by (cases "mkdir_chain fs (tl (prefixes p))") (simp add: mkdir_def)
qed

lemma save_success:
  assumes "save fs doc p = (fs', None)"
  shows "map_of (files fs') = (map_of (files fs))(p \<mapsto> Docx doc)" and "dirs fs' = dirs fs"
  using assms by (auto simp: save_def map_of_dict_set split: if_splits)

lemma save_failure: "save fs doc p = (fs', Some e) \<Longrightarrow> fs' = fs"
  by (auto simp: save_def split: if_splits)

lemma save_total:
  "\<not> is_dir fs p \<Longrightarrow> is_dir fs (butlast p) \<Longrightarrow> \<exists>fs'. save fs doc p = (fs', None)"
  by (simp add: save_def)

lemma save_then_return:
  assumes md: "mkdir fs output_dir = (fs1, None)"
    and sv: "save fs1 d (output_dir @ [name]) = (fs2, None)"
  shows "(\<forall>q\<in>set (prefixes output_dir). is_dir fs2 q) \<and>
         map_of (files fs2) (output_dir @ [name]) = Some (Docx d)"
  using mkdir_success(2)[OF md] save_success[OF sv] by (simp add: is_dir_def)

lemma mkdir_save_total:
  assumes nofile: "\<forall>q\<in>set (prefixes output_dir). \<not> is_file fs q"
    and nodir: "\<not> is_dir fs (output_dir @ [name])"
  shows "\<exists>fs1 fs2. mkdir fs output_dir = (fs1, None) \<and>
           save fs1 d (output_dir @ [name]) = (fs2, None)"
proof -
  from mkdir_total[OF nofile] obtain fs1 where md: "mkdir fs output_dir = (fs1, None)" by blast
  have "output_dir @ [name] \<notin> set (prefixes output_dir)"
    by (auto simp: in_set_prefixes dest: prefix_length_le)
  then have "\<not> is_dir fs1 (output_dir @ [name])"
    using mkdir_success(3)[OF md] nodir by (auto simp: is_dir_def)
  moreover have "is_dir fs1 (butlast (output_dir @ [name]))"
    using mkdir_success(2)[OF md] by simp
  ultimately show ?thesis using save_total md by blast
qed

text \<open>
  C6. When \<open>translate_document\<close> or \<open>translate_document_preserve_formatting\<close> returns a
  path, that path is \<open>output_dir / (stem + "_translated" + suffix)\<close> of the input path,
  the output directory and all its parents exist, and the file at that path holds the
  translated document. The call does return that path whenever the input file holds a
  document, no file stands where the output directory or one of its parents has to be,
  and the output path is not a directory. Stem and suffix together are the name of the
  input file.
\<close>

theorem output_path_derivation:
  "(translate_document fs doc_path m output_dir = (fs', Inr out) \<longrightarrow>
      out = output_dir @ [path_stem doc_path @ ''_translated'' @ path_suffix doc_path] \<and>
      (\<forall>q\<in>set (prefixes output_dir). is_dir fs' q) \<and>
      (\<exists>doc. Document fs doc_path = Inr doc \<and>
             map_of (files fs') out = Some (Docx (translate_tree_base m doc)))) \<and>
   (translate_document_preserve_formatting fs doc_path m output_dir = (fs', Inr out) \<longrightarrow>
      out = output_dir @ [path_stem doc_path @ ''_translated'' @ path_suffix doc_path] \<and>
      (\<forall>q\<in>set (prefixes output_dir). is_dir fs' q) \<and>
      (\<exists>doc. Document fs doc_path = Inr doc \<and>
             map_of (files fs') out = Some (Docx (translate_tree m doc)))) \<and>
   (Document fs doc_path = Inr doc \<and> (\<forall>q\<in>set (prefixes output_dir). \<not> is_file fs q) \<and>
    \<not> is_dir fs (output_path_of doc_path output_dir) \<longrightarrow>
      (\<exists>fs1. translate_document fs doc_path m output_dir
                = (fs1, Inr (output_path_of doc_path output_dir))) \<and>
      (\<exists>fs2. translate_document_preserve_formatting fs doc_path m output_dir
                = (fs2, Inr (output_path_of doc_path output_dir)))) \<and>
   path_stem doc_path @ path_suffix doc_path = path_name doc_path"
proof (intro conjI impI)
  assume a: "translate_document fs doc_path m output_dir = (fs', Inr out)"
  then obtain doc fs1 where doc: "Document fs doc_path = Inr doc"
    and md: "mkdir fs output_dir = (fs1, None)"
    and sv: "save fs1 (translate_tree_base m doc) (output_path_of doc_path output_dir) = (fs', None)"
    and out: "out = output_path_of doc_path output_dir"
    by (auto simp: translate_document_def split: sum.splits prod.splits option.splits)
  show "out = output_dir @ [path_stem doc_path @ ''_translated'' @ path_suffix doc_path]"
    using out by (simp add: output_path_of_def)
  show "\<forall>q\<in>set (prefixes output_dir). is_dir fs' q"
    using save_then_return[OF md sv[unfolded output_path_of_def]] by simp
  show "\<exists>doc. Document fs doc_path = Inr doc \<and>
             map_of (files fs') out = Some (Docx (translate_tree_base m doc))"
    using save_then_return[OF md sv[unfolded output_path_of_def]] doc out
    by (simp add: output_path_of_def)
next
  assume a: "translate_document_preserve_formatting fs doc_path m output_dir = (fs', Inr out)"
  then obtain doc fs1 where doc: "Document fs doc_path = Inr doc"
    and md: "mkdir fs output_dir = (fs1, None)"
    and sv: "save fs1 (translate_tree m doc) (output_path_of doc_path output_dir) = (fs', None)"
    and out: "out = output_path_of doc_path output_dir"
    by (auto simp: translate_document_preserve_formatting_def
        split: sum.splits prod.splits option.splits)
  show "out = output_dir @ [path_stem doc_path @ ''_translated'' @ path_suffix doc_path]"
    using out by (simp add: output_path_of_def)
  show "\<forall>q\<in>set (prefixes output_dir). is_dir fs' q"
    using save_then_return[OF md sv[unfolded output_path_of_def]] by simp
  show "\<exists>doc. Document fs doc_path = Inr doc \<and>
             map_of (files fs') out = Some (Docx (translate_tree m doc))"
    using save_then_return[OF md sv[unfolded output_path_of_def]] doc out
    by (simp add: output_path_of_def)
next
  assume a: "Document fs doc_path = Inr doc \<and> (\<forall>q\<in>set (prefixes output_dir). \<not> is_file fs q) \<and>
    \<not> is_dir fs (output_path_of doc_path output_dir)"
  from mkdir_save_total[of output_dir fs _ "translate_tree_base m doc"] a
  show "\<exists>fs1. translate_document fs doc_path m output_dir
                = (fs1, Inr (output_path_of doc_path output_dir))"
    by (fastforce simp: translate_document_def output_path_of_def)
  from mkdir_save_total[of output_dir fs _ "translate_tree m doc"] a
  show "\<exists>fs2. translate_document_preserve_formatting fs doc_path m output_dir
                = (fs2, Inr (output_path_of doc_path output_dir))"
    by (fastforce simp: translate_document_preserve_formatting_def output_path_of_def)
next
  show "path_stem doc_path @ path_suffix doc_path = path_name doc_path"
    by (rule path_stem_suffix)
qed

text \<open>
  C7. Whatever the outcome of \<open>translate_document\<close> or of
  \<open>translate_document_preserve_formatting\<close>, the file at the input path holds afterwards
  what it held before: the only file written is the one at the output path, and the
  output path is never the input path.
\<close>

theorem source_file_untouched:
  "map_of (files (fst (translate_document fs doc_path m output_dir))) doc_path
     = map_of (files fs) doc_path \<and>
   map_of (files (fst (translate_document_preserve_formatting fs doc_path m output_dir))) doc_path
     = map_of (files fs) doc_path"
proof -
  have frame: "map_of (files fs2) doc_path = map_of (files fs) doc_path"
    if "save (fst (mkdir fs output_dir)) d (output_path_of doc_path output_dir) = (fs2, r)"
    for fs2 d r
  proof (cases r)
    case None
    then show ?thesis
      using save_success(1)[of "fst (mkdir fs output_dir)" d _ fs2] that
        output_path_differs[of doc_path output_dir] by (simp add: mkdir_files)
  next
    case (Some e)
    with that have "fs2 = fst (mkdir fs output_dir)" by (auto dest: save_failure)
    then show ?thesis by (simp add: mkdir_files)
  qed
  show ?thesis
    using frame mkdir_files[of fs output_dir]
    by (auto simp: translate_document_def translate_document_preserve_formatting_def
        split: sum.splits prod.splits option.splits)
qed


text \<open>The input \<open>invoice/invoice_2024.docx\<close> with the output directory \<open>translated\<close>,
  which does not exist yet, gives \<open>translated/invoice_2024_translated.docx\<close>.\<close>

theorem output_path_derivation_witness:
  "Document \<lparr>dirs = [[''invoice'']],
             files = [([''invoice'', ''invoice_2024.docx''], Docx sample_document)]\<rparr>
     [''invoice'', ''invoice_2024.docx''] = Inr sample_document \<and>
   \<not> path_exists \<lparr>dirs = [[''invoice'']],
                    files = [([''invoice'', ''invoice_2024.docx''], Docx sample_document)]\<rparr>
       [''translated''] \<and>
   (\<exists>fs1. translate_document
      \<lparr>dirs = [[''invoice'']],
       files = [([''invoice'', ''invoice_2024.docx''], Docx sample_document)]\<rparr>
      [''invoice'', ''invoice_2024.docx''] [(''Invoice'', ''Factura'')] [''translated'']
      = (fs1, Inr [''translated'', ''invoice_2024_translated.docx'']))"
proof -
  let ?fs = "\<lparr>dirs = [[''invoice'']],
             files = [([''invoice'', ''invoice_2024.docx''], Docx sample_document)]\<rparr>"
  let ?p = "[''invoice'', ''invoice_2024.docx'']"
  have out: "output_path_of ?p [''translated''] = [''translated'', ''invoice_2024_translated.docx'']"
    by (simp add: output_path_of_def path_stem_def path_suffix_def path_name_def rfind_dot_def)
  have h1: "Document ?fs ?p = Inr sample_document" by (simp add: Document_def)
  have h2: "\<forall>q\<in>set (prefixes [''translated'']). \<not> is_file ?fs q" by (simp add: is_file_def)
  have h3: "\<not> is_dir ?fs (output_path_of ?p [''translated''])"
    unfolding out by (simp add: is_dir_def)
  from output_path_derivation[of ?fs ?p "[(''Invoice'', ''Factura'')]" "[''translated'']" _ _
      sample_document] h1 h2 h3
  have "\<exists>fs1. translate_document ?fs ?p [(''Invoice'', ''Factura'')] [''translated'']
                = (fs1, Inr (output_path_of ?p [''translated'']))" by blast
  moreover have "\<not> path_exists ?fs [''translated'']"
    by (simp add: path_exists_def is_dir_def is_file_def)
  ultimately show ?thesis using h1 unfolding out by blast
qed

subsection \<open>The batch loops\<close>

text \<open>The loop of \<open>main\<close> in \<open>pdf_translator_structured.py\<close> reports on every file of the
  list, in order, whatever happens to the others.\<close>

lemma main_loop_reports:
  "map report_file (snd (main_loop pdf2docx fs mapping_file output_dir pdf_files)) = pdf_files"
proof (induction pdf_files arbitrary: fs)
  case Nil
  then show ?case by simp
next
  case (Cons p ps)
  obtain fs' r where pr: "process_pdf_to_structured_docx pdf2docx fs p mapping_file output_dir
      = (fs', r)" by (cases "process_pdf_to_structured_docx pdf2docx fs p mapping_file output_dir")
  obtain fs'' reports where ml: "main_loop pdf2docx fs' mapping_file output_dir ps = (fs'', reports)"
    by (cases "main_loop pdf2docx fs' mapping_file output_dir ps")
  have "map report_file reports = ps" using Cons.IH[of fs'] ml by simp
  then show ?case using pr ml by (simp split: sum.splits option.splits)
qed

lemma main_base_loop_stops:
  "translate_document fs doc_path m output_dir = (fs', Inl e) \<Longrightarrow>
   main_base_loop fs m output_dir (doc_path # rest) = (fs', Some e)"
  by simp

text \<open>
  C8. The loop of \<open>main\<close> in \<open>translate.py\<close> has no handler. With \<open>invoice/a.docx\<close>
  not holding a document and \<open>invoice/b.docx\<close> holding one, the exception raised for
  \<open>a.docx\<close> ends \<open>main\<close>, the file system is as it was and nothing is written for
  \<open>b.docx\<close>; without \<open>a.docx\<close> the same \<open>b.docx\<close> is translated to
  \<open>translated/b_translated.docx\<close>.
\<close>

theorem main_base_halts_on_failure:
  "main_base \<lparr>dirs = [[''invoice'']],
              files = [([''words.txt''], Text ''Invoice=Factura''),
                       ([''invoice'', ''a.docx''], Text ''not a document''),
                       ([''invoice'', ''b.docx''], Docx sample_document)]\<rparr>
     = (\<lparr>dirs = [[''invoice'']],
         files = [([''words.txt''], Text ''Invoice=Factura''),
                  ([''invoice'', ''a.docx''], Text ''not a document''),
                  ([''invoice'', ''b.docx''], Docx sample_document)]\<rparr>,
        Some PackageNotFoundError) \<and>
   snd (main_base \<lparr>dirs = [[''invoice'']],
              files = [([''words.txt''], Text ''Invoice=Factura''),
                       ([''invoice'', ''b.docx''], Docx sample_document)]\<rparr>) = None \<and>
   is_file (fst (main_base \<lparr>dirs = [[''invoice'']],
              files = [([''words.txt''], Text ''Invoice=Factura''),
                       ([''invoice'', ''b.docx''], Docx sample_document)]\<rparr>))
     [''translated'', ''b_translated.docx'']"
  by (simp add: main_base_def path_exists_def is_dir_def is_file_def load_mapping_file_def
      load_mapping_def strip_def is_space_def glob_def suffix_to_prefix
      translate_document_def Document_def mkdir_def save_def output_path_of_def
      path_stem_def path_suffix_def path_name_def rfind_dot_def)


end
